theory Spec2Isabelle
  imports Main "HOL-Library.Word" "HOL-Library.Finite_Map"
begin

unbundle bit_operations_syntax

section \<open>The column codec of chconn: scalar columns\<close>

text \<open>
  The Go package \<^verbatim>\<open>column\<close> keeps one struct per ClickHouse type. The files under
  study are \<^verbatim>\<open>uint64.go\<close> (type \<^verbatim>\<open>Uint64\<close>), the file of type \<^verbatim>\<open>DateTime\<close> and
  \<^verbatim>\<open>array_nullable.go\<close> (type \<^verbatim>\<open>ArrayNullable[T]\<close>). Bytes are \<open>8 word\<close>, a
  \<^verbatim>\<open>uint64\<close> is \<open>64 word\<close>, an \<^verbatim>\<open>int64\<close> is a \<open>64 word\<close> read with \<open>sint\<close>. Go's \<^verbatim>\<open>int\<close>
  is used by the code for buffer positions, lengths and dictionary keys only; they are
  bounded by the size of the buffers, so positions and lengths are \<open>nat\<close> and keys are
  \<open>int\<close>. A slice is a list whose capacity is its length.
\<close>

type_synonym byte = "8 word"

text \<open>
  The run-time panics of Go that the code can raise: a slice expression or an index out
  of range, and the panics of \<^verbatim>\<open>reflect\<close> on setting a value that is not settable and on
  making a slice of negative length.
\<close>

datatype error =
    SliceBoundsOutOfRange | IndexOutOfRange | ReflectSetUnaddressable | MakeSliceNegativeLen

text \<open>
  Modelled from the spec: the type \<^verbatim>\<open>nullable\<close> behind the field \<^verbatim>\<open>colNullable\<close> is
  declared outside the files given. The spec describes it as one byte per row, with a
  read side and an append-only write side.
\<close>

record nullable_t =
  null_b :: "byte list"
  null_writerData :: "byte list"

definition newNullable :: nullable_t where
  "newNullable = \<lparr>null_b = [], null_writerData = []\<rparr>"

text \<open>
  Modelled from the spec: the struct \<^verbatim>\<open>column\<close> embedded in every scalar column is
  declared outside the files given. Its fields are the ones the methods of \<^verbatim>\<open>Uint64\<close>
  and \<^verbatim>\<open>DateTime\<close> read and write: the read buffer \<^verbatim>\<open>b\<close>, the cursor \<^verbatim>\<open>i\<close>,
  \<^verbatim>\<open>totalByte\<close>, the element width \<^verbatim>\<open>size\<close> (here \<open>size_col\<close>), \<^verbatim>\<open>numRow\<close>, the write
  buffer \<^verbatim>\<open>writerData\<close>, \<^verbatim>\<open>nullable\<close> and \<^verbatim>\<open>colNullable\<close>.
\<close>

record column =
  b :: "byte list"
  i :: nat
  totalByte :: nat
  size_col :: nat
  numRow :: nat
  writerData :: "byte list"
  nullable :: bool
  colNullable :: nullable_t

text \<open>
  \<^verbatim>\<open>Uint64\<close> and \<^verbatim>\<open>DateTime\<close> are the same struct up to the value type: the embedded
  \<^verbatim>\<open>column\<close>, the current value \<^verbatim>\<open>val\<close>, the dictionary \<^verbatim>\<open>dict\<close> (a Go map, finite,
  from values to keys) and the key sequence \<^verbatim>\<open>keys\<close>.
\<close>

record 'v scalar = column +
  val :: 'v
  dict :: "('v, int) fmap"
  keys :: "int list"

type_synonym Uint64 = "64 word scalar"

text \<open>
  Modelled from the spec: the constants \<^verbatim>\<open>Uint64Size\<close> and \<^verbatim>\<open>DatetimeSize\<close> and the
  zero-filled buffer \<^verbatim>\<open>emptyByte\<close> are declared outside the files given. The spec fixes
  8 bytes for 64-bit integers and 4 bytes for epoch-second timestamps, and says that
  \<^verbatim>\<open>appendEmpty\<close> appends \<^verbatim>\<open>elementWidth\<close> zero bytes; \<open>emptyByte_upto n\<close> is the slice
  \<^verbatim>\<open>emptyByte[:n]\<close>.
\<close>

definition Uint64Size :: nat where
  "Uint64Size = 8"

definition DatetimeSize :: nat where
  "DatetimeSize = 4"

definition emptyByte_upto :: "nat \<Rightarrow> byte list" where
  "emptyByte_upto n = replicate n 0"

text \<open>
  Modelled from the spec: \<^verbatim>\<open>column.Reset\<close> is declared outside the files given. The
  spec: reset clears the write buffer, the row count and the bitmap, and does not touch
  the read buffer or the cursor.
\<close>

definition column_Reset :: "'a column_scheme \<Rightarrow> 'a column_scheme" where
  "column_Reset c =
     c\<lparr>numRow := 0, writerData := [],
       colNullable := (colNullable c)\<lparr>null_writerData := []\<rparr>\<rparr>"

subsection \<open>Slices and the little-endian readers of \<^verbatim>\<open>encoding/binary\<close>\<close>

text \<open>\<^verbatim>\<open>s[lo:hi]\<close> panics unless \<open>lo \<le> hi \<le> len\<close>.\<close>

definition slice :: "'a list \<Rightarrow> nat \<Rightarrow> nat \<Rightarrow> error + 'a list" where
  "slice xs lo hi =
     (if lo \<le> hi \<and> hi \<le> length xs then Inr (take (hi - lo) (drop lo xs))
      else Inl SliceBoundsOutOfRange)"

text \<open>
  \<^verbatim>\<open>binary.LittleEndian.Uint64\<close> checks \<^verbatim>\<open>b[7]\<close> first and then ors the eight bytes,
  each shifted to its place; \<^verbatim>\<open>Uint32\<close> does the same with four bytes.
\<close>

definition LittleEndian_Uint64 :: "byte list \<Rightarrow> error + 64 word" where
  "LittleEndian_Uint64 bs =
     (if length bs < 8 then Inl IndexOutOfRange
      else Inr (ucast (bs ! 0) OR push_bit 8 (ucast (bs ! 1)) OR
                push_bit 16 (ucast (bs ! 2)) OR push_bit 24 (ucast (bs ! 3)) OR
                push_bit 32 (ucast (bs ! 4)) OR push_bit 40 (ucast (bs ! 5)) OR
                push_bit 48 (ucast (bs ! 6)) OR push_bit 56 (ucast (bs ! 7))))"

definition LittleEndian_Uint32 :: "byte list \<Rightarrow> error + 32 word" where
  "LittleEndian_Uint32 bs =
     (if length bs < 4 then Inl IndexOutOfRange
      else Inr (ucast (bs ! 0) OR push_bit 8 (ucast (bs ! 1)) OR
                push_bit 16 (ucast (bs ! 2)) OR push_bit 24 (ucast (bs ! 3))))"

subsection \<open>\<^verbatim>\<open>Uint64\<close>: construction and decoding\<close>

definition NewUint64 :: "bool \<Rightarrow> Uint64" where
  "NewUint64 nl =
     \<lparr>b = [], i = 0, totalByte = 0, size_col = Uint64Size, numRow = 0,
      writerData = [], nullable = nl, colNullable = newNullable,
      val = 0, dict = fmempty, keys = []\<rparr>"

text \<open>
  \<^verbatim>\<open>Next\<close>: at the end of the block it returns false and changes nothing; otherwise the
  cursor moves by \<^verbatim>\<open>size\<close> and the span just passed is decoded into \<^verbatim>\<open>val\<close>.
\<close>

definition Uint64_Next :: "Uint64 \<Rightarrow> error + (Uint64 \<times> bool)" where
  "Uint64_Next c =
     (if i c \<ge> totalByte c then Inr (c, False)
      else
        let c1 = c\<lparr>i := i c + size_col c\<rparr> in
        case slice (b c1) (i c1 - size_col c1) (i c1) of
          Inl e \<Rightarrow> Inl e
        | Inr bs \<Rightarrow>
            (case LittleEndian_Uint64 bs of
               Inl e \<Rightarrow> Inl e
             | Inr v \<Rightarrow> Inr (c1\<lparr>val := v\<rparr>, True)))"

definition Uint64_Value :: "Uint64 \<Rightarrow> 64 word" where
  "Uint64_Value c = val c"

text \<open>
  \<^verbatim>\<open>ReadAll\<close>: the loop \<^verbatim>\<open>for i := 0; i < c.totalByte; i += c.size\<close> with a local
  counter. With \<^verbatim>\<open>size = 0\<close> and a non-empty block it never ends, which is the value
  \<open>None\<close>; a panic is \<open>Some (Inl e)\<close>. No field of the column is assigned; the column is
  returned beside the destination slice to make that a statement.
\<close>

partial_function (option) Uint64_ReadAll_loop ::
    "Uint64 \<Rightarrow> nat \<Rightarrow> 64 word list \<Rightarrow> (error + Uint64 \<times> 64 word list) option" where
  "Uint64_ReadAll_loop c k value =
     (if k < totalByte c then
        (case slice (b c) k (k + size_col c) of
           Inl e \<Rightarrow> Some (Inl e)
         | Inr bs \<Rightarrow>
             (case LittleEndian_Uint64 bs of
                Inl e \<Rightarrow> Some (Inl e)
              | Inr v \<Rightarrow> Uint64_ReadAll_loop c (k + size_col c) (value @ [v])))
      else Some (Inr (c, value)))"

definition Uint64_ReadAll ::
    "Uint64 \<Rightarrow> 64 word list \<Rightarrow> (error + Uint64 \<times> 64 word list) option" where
  "Uint64_ReadAll c value = Uint64_ReadAll_loop c 0 value"

text \<open>
  The sequential reading the spec compares \<^verbatim>\<open>ReadAll\<close> with: call \<^verbatim>\<open>Next\<close>, and while
  it returns true collect \<^verbatim>\<open>Value\<close>. This is the caller's loop, written from the spec's
  words.
\<close>

partial_function (option) Uint64_drain ::
    "Uint64 \<Rightarrow> 64 word list \<Rightarrow> (error + Uint64 \<times> 64 word list) option" where
  "Uint64_drain c acc =
     (case Uint64_Next c of
        Inl e \<Rightarrow> Some (Inl e)
      | Inr (c1, ok) \<Rightarrow>
          if ok then Uint64_drain c1 (acc @ [Uint64_Value c1])
          else Some (Inr (c1, acc)))"

subsection \<open>\<^verbatim>\<open>Uint64\<close>: encoding\<close>

definition Uint64_Append :: "Uint64 \<Rightarrow> 64 word \<Rightarrow> Uint64" where
  "Uint64_Append c v =
     c\<lparr>numRow := numRow c + 1,
       writerData := writerData c @
         [ucast v, ucast (drop_bit 8 v), ucast (drop_bit 16 v), ucast (drop_bit 24 v),
          ucast (drop_bit 32 v), ucast (drop_bit 40 v), ucast (drop_bit 48 v),
          ucast (drop_bit 56 v)]\<rparr>"

definition Uint64_AppendEmpty :: "Uint64 \<Rightarrow> Uint64" where
  "Uint64_AppendEmpty c =
     c\<lparr>numRow := numRow c + 1,
       writerData := writerData c @ emptyByte_upto (size_col c)\<rparr>"

text \<open>
  \<^verbatim>\<open>AppendDict\<close>: look the value up; when absent, its key is \<^verbatim>\<open>len(c.dict)\<close>, it is
  stored and the value is appended. Then the key (plus one for a nullable column) is
  appended to \<^verbatim>\<open>keys\<close>.
\<close>

definition Uint64_AppendDict :: "Uint64 \<Rightarrow> 64 word \<Rightarrow> Uint64" where
  "Uint64_AppendDict c v =
     (let (key, c1) =
        (case fmlookup (dict c) v of
           Some key \<Rightarrow> (key, c)
         | None \<Rightarrow>
             (let key = int (fcard (fmdom (dict c)))
              in (key, Uint64_Append (c\<lparr>dict := fmupd v key (dict c)\<rparr>) v)))
      in if nullable c1 then c1\<lparr>keys := keys c1 @ [key + 1]\<rparr>
         else c1\<lparr>keys := keys c1 @ [key]\<rparr>)"

definition Uint64_AppendDictNil :: "Uint64 \<Rightarrow> Uint64" where
  "Uint64_AppendDictNil c = c\<lparr>keys := keys c @ [0]\<rparr>"

text \<open>\<^verbatim>\<open>AppendDictP\<close> takes a pointer; \<^verbatim>\<open>nil\<close> is \<open>None\<close>.\<close>

definition Uint64_AppendDictP :: "Uint64 \<Rightarrow> 64 word option \<Rightarrow> Uint64" where
  "Uint64_AppendDictP c p =
     (case p of
        None \<Rightarrow> c\<lparr>keys := keys c @ [0]\<rparr>
      | Some v \<Rightarrow>
          (let (key, c1) =
             (case fmlookup (dict c) v of
                Some key \<Rightarrow> (key, c)
              | None \<Rightarrow>
                  (let key = int (fcard (fmdom (dict c)))
                   in (key, Uint64_Append (c\<lparr>dict := fmupd v key (dict c)\<rparr>) v)))
           in c1\<lparr>keys := keys c1 @ [key + 1]\<rparr>))"

definition Uint64_Keys :: "Uint64 \<Rightarrow> int list" where
  "Uint64_Keys c = keys c"

definition Uint64_Reset :: "Uint64 \<Rightarrow> Uint64" where
  "Uint64_Reset c = (column_Reset c)\<lparr>keys := [], dict := fmempty\<rparr>"

subsection \<open>\<^verbatim>\<open>DateTime\<close>\<close>

text \<open>
  A \<^verbatim>\<open>time.Time\<close> of the Go library is observed by the code through \<^verbatim>\<open>Unix()\<close>, an
  \<^verbatim>\<open>int64\<close> of seconds since the epoch, and built by \<^verbatim>\<open>time.Unix(sec, 0)\<close>. An instant
  is its seconds (two's complement, read with \<open>sint\<close>) and its nanoseconds within the
  second; \<open>time_Unix sec\<close> is \<^verbatim>\<open>time.Unix(sec, 0)\<close>.
\<close>

datatype Time = MkTime (Time_Unix: "64 word") (Time_Nanosecond: nat)

definition time_Unix :: "64 word \<Rightarrow> Time" where
  "time_Unix s = MkTime s 0"

type_synonym DateTime = "Time scalar"

definition NewDateTime :: "bool \<Rightarrow> DateTime" where
  "NewDateTime nl =
     \<lparr>b = [], i = 0, totalByte = 0, size_col = DatetimeSize, numRow = 0,
      writerData = [], nullable = nl, colNullable = newNullable,
      val = MkTime 0 0, dict = fmempty, keys = []\<rparr>"

definition DateTime_Next :: "DateTime \<Rightarrow> error + (DateTime \<times> bool)" where
  "DateTime_Next c =
     (if i c \<ge> totalByte c then Inr (c, False)
      else
        let c1 = c\<lparr>i := i c + size_col c\<rparr> in
        case slice (b c1) (i c1 - size_col c1) (i c1) of
          Inl e \<Rightarrow> Inl e
        | Inr bs \<Rightarrow>
            (case LittleEndian_Uint32 bs of
               Inl e \<Rightarrow> Inl e
             | Inr v \<Rightarrow> Inr (c1\<lparr>val := time_Unix (ucast v)\<rparr>, True)))"

definition DateTime_Value :: "DateTime \<Rightarrow> Time" where
  "DateTime_Value c = val c"

partial_function (option) DateTime_ReadAll_loop ::
    "DateTime \<Rightarrow> nat \<Rightarrow> Time list \<Rightarrow> (error + DateTime \<times> Time list) option" where
  "DateTime_ReadAll_loop c k value =
     (if k < totalByte c then
        (case slice (b c) k (k + size_col c) of
           Inl e \<Rightarrow> Some (Inl e)
         | Inr bs \<Rightarrow>
             (case LittleEndian_Uint32 bs of
                Inl e \<Rightarrow> Some (Inl e)
              | Inr v \<Rightarrow>
                  DateTime_ReadAll_loop c (k + size_col c) (value @ [time_Unix (ucast v)])))
      else Some (Inr (c, value)))"

definition DateTime_ReadAll ::
    "DateTime \<Rightarrow> Time list \<Rightarrow> (error + DateTime \<times> Time list) option" where
  "DateTime_ReadAll c value = DateTime_ReadAll_loop c 0 value"

partial_function (option) DateTime_drain ::
    "DateTime \<Rightarrow> Time list \<Rightarrow> (error + DateTime \<times> Time list) option" where
  "DateTime_drain c acc =
     (case DateTime_Next c of
        Inl e \<Rightarrow> Some (Inl e)
      | Inr (c1, ok) \<Rightarrow>
          if ok then DateTime_drain c1 (acc @ [DateTime_Value c1])
          else Some (Inr (c1, acc)))"

text \<open>
  \<^verbatim>\<open>Append\<close>: an epoch value \<open>\<le> 0\<close> (a signed comparison) writes \<^verbatim>\<open>emptyByte[:c.size]\<close>;
  otherwise the four low bytes of the \<^verbatim>\<open>int64\<close> are written, \<^verbatim>\<open>>>\<close> being the arithmetic
  shift of a signed integer.
\<close>

definition DateTime_Append :: "DateTime \<Rightarrow> Time \<Rightarrow> DateTime" where
  "DateTime_Append c v =
     (let c1 = c\<lparr>numRow := numRow c + 1\<rparr> in
      if sint (Time_Unix v) \<le> 0
      then c1\<lparr>writerData := writerData c1 @ emptyByte_upto (size_col c1)\<rparr>
      else
        let timestamp = Time_Unix v in
        c1\<lparr>writerData := writerData c1 @
             [ucast timestamp, ucast (signed_drop_bit 8 timestamp),
              ucast (signed_drop_bit 16 timestamp),
              ucast (signed_drop_bit 24 timestamp)]\<rparr>)"

subsection \<open>Little-endian bytes, stated arithmetically\<close>

text \<open>
  The \<open>n\<close> little-endian bytes of a number: byte \<open>k\<close> is the \<open>k\<close>-th digit in base 256.
  The rows of a buffer: \<open>m\<close> consecutive spans of width \<open>w\<close>.
\<close>

definition le_bytes :: "nat \<Rightarrow> nat \<Rightarrow> byte list" where
  "le_bytes n x = map (\<lambda>k. of_nat (x div 256 ^ k mod 256)) [0..<n]"

primrec rows :: "nat \<Rightarrow> nat \<Rightarrow> 'a list \<Rightarrow> 'a list list" where
  "rows w 0 xs = []"
| "rows w (Suc m) xs = take w xs # rows w m (drop w xs)"

subsection \<open>Sequences of dictionary calls\<close>

text \<open>
  A caller's sequence of dictionary appends on a \<^verbatim>\<open>Uint64\<close> column, one constructor per
  method, and what the spec says about the keys: the distinct values in the order of
  their first occurrence, the position of a value among them, and the key expected for
  a call on a nullable column (0 for nil, position plus one for a value).
\<close>

datatype dict_call = Call_AppendDict "64 word" | Call_AppendDictNil | Call_AppendDictP "64 word option"

fun Uint64_call :: "Uint64 \<Rightarrow> dict_call \<Rightarrow> Uint64" where
  "Uint64_call c (Call_AppendDict v) = Uint64_AppendDict c v"
| "Uint64_call c Call_AppendDictNil = Uint64_AppendDictNil c"
| "Uint64_call c (Call_AppendDictP p) = Uint64_AppendDictP c p"

fun call_value :: "dict_call \<Rightarrow> 64 word option" where
  "call_value (Call_AppendDict v) = Some v"
| "call_value Call_AppendDictNil = None"
| "call_value (Call_AppendDictP p) = p"

primrec first_occurrences :: "'a list \<Rightarrow> 'a list \<Rightarrow> 'a list" where
  "first_occurrences seen [] = seen"
| "first_occurrences seen (x # xs) =
     first_occurrences (if x \<in> set seen then seen else seen @ [x]) xs"

primrec index_of :: "'a list \<Rightarrow> 'a \<Rightarrow> nat" where
  "index_of [] v = 0"
| "index_of (x # xs) v = (if x = v then 0 else Suc (index_of xs v))"

definition expected_key :: "64 word list \<Rightarrow> 64 word option \<Rightarrow> int" where
  "expected_key seen p = (case p of None \<Rightarrow> 0 | Some v \<Rightarrow> int (index_of seen v) + 1)"

definition call_values :: "dict_call list \<Rightarrow> 64 word list" where
  "call_values calls = concat (map (\<lambda>call. case call_value call of None \<Rightarrow> [] | Some v \<Rightarrow> [v]) calls)"

text \<open>
  The dictionary after the distinct values \<open>seen\<close> were inserted in this order: each is
  mapped to its position, nothing else is present.
\<close>

definition dict_inv :: "64 word list \<Rightarrow> Uint64 \<Rightarrow> bool" where
  "dict_inv seen c \<longleftrightarrow>
     distinct seen \<and>
     (\<forall>v. fmlookup (dict c) v = (if v \<in> set seen then Some (int (index_of seen v)) else None))"

section \<open>Verified properties\<close>

subsection \<open>Bytes of a 64-bit word\<close>

lemma of_nat_mod_256: "(of_nat (x mod 256) :: byte) = of_nat x"
proof -
  have "unat (of_nat (x mod 256) :: byte) = unat (of_nat x :: byte)"
    by (simp add: unat_of_nat)
  then show ?thesis by (rule word_unat_eq_iff [THEN iffD2])
qed

lemma ucast_drop_bit_byte:
  "(ucast (drop_bit n (v::64 word)) :: byte) = of_nat (unat v div 2 ^ n mod 256)"
proof -
  have "unat (drop_bit n v) = unat v div 2 ^ n"
    unfolding unat_drop_bit_eq by (rule drop_bit_eq_div)
  then have "unat (ucast (drop_bit n v) :: byte) = unat (of_nat (unat v div 2 ^ n mod 256) :: byte)"
    by (simp add: unsigned_ucast_eq unat_of_nat take_bit_eq_mod)
  then show ?thesis by (rule word_unat_eq_iff [THEN iffD2])
qed

lemma upt8: "[0..<8] = [0,1,2,3,4,5,6,7]"
  by (simp add: upt_rec)

lemma Append_bytes_le:
  "[ucast v, ucast (drop_bit 8 v), ucast (drop_bit 16 v), ucast (drop_bit 24 v),
    ucast (drop_bit 32 v), ucast (drop_bit 40 v), ucast (drop_bit 48 v),
    ucast (drop_bit 56 v)] = le_bytes 8 (unat (v::64 word))"
proof -
  have "(ucast v :: byte) = ucast (drop_bit 0 v)" by simp
  then show ?thesis
    unfolding le_bytes_def upt8 
    by (simp only: ucast_drop_bit_byte list.map) simp
qed

lemma nat_diff_less_conv: "0 < m \<Longrightarrow> (n - k < (m::nat)) = (n < k + m)"
  by arith

lemma or_bytes64:
  "ucast (ucast v :: byte) OR push_bit 8 (ucast (ucast (drop_bit 8 v) :: byte)) OR
   push_bit 16 (ucast (ucast (drop_bit 16 v) :: byte)) OR
   push_bit 24 (ucast (ucast (drop_bit 24 v) :: byte)) OR
   push_bit 32 (ucast (ucast (drop_bit 32 v) :: byte)) OR
   push_bit 40 (ucast (ucast (drop_bit 40 v) :: byte)) OR
   push_bit 48 (ucast (ucast (drop_bit 48 v) :: byte)) OR
   push_bit 56 (ucast (ucast (drop_bit 56 v) :: byte)) = (v :: 64 word)"
  (is "?w = v")
proof (rule bit_word_eqI)
  fix n assume "n < LENGTH(64)"
  then have n: "n < 64" by simp
  consider "n < 8" | "8 \<le> n" "n < 16" | "16 \<le> n" "n < 24" | "24 \<le> n" "n < 32"
    | "32 \<le> n" "n < 40" | "40 \<le> n" "n < 48" | "48 \<le> n" "n < 56" | "56 \<le> n" "n < 64"
    using n by linarith
  then show "bit ?w n = bit v n"
    by cases (simp_all add: bit_simps nat_diff_less_conv)
qed

lemma LittleEndian_Uint64_bytes:
  "LittleEndian_Uint64
     [ucast v, ucast (drop_bit 8 v), ucast (drop_bit 16 v), ucast (drop_bit 24 v),
      ucast (drop_bit 32 v), ucast (drop_bit 40 v), ucast (drop_bit 48 v),
      ucast (drop_bit 56 v)] = Inr v"
  using or_bytes64 [of v] by (simp add: LittleEndian_Uint64_def)

subsection \<open>The decoding loops of \<^verbatim>\<open>Uint64\<close> over whole rows\<close>

lemma LittleEndian_Uint64_total:
  "8 \<le> length bs \<Longrightarrow> \<exists>v. LittleEndian_Uint64 bs = Inr v"
  by (simp add: LittleEndian_Uint64_def)

lemma slice_row:
  "k + w \<le> length xs \<Longrightarrow> slice xs k (k + w) = Inr (take w (drop k xs))"
  by (simp add: slice_def)

lemma Uint64_ReadAll_loop_rows:
  assumes "size_col c = 8" and "totalByte c = length (b c)"
    and "length (b c) = k + 8 * m"
  shows "Uint64_ReadAll_loop c k out =
           Some (Inr (c, out @ map (projr \<circ> LittleEndian_Uint64) (rows 8 m (drop k (b c)))))"
  using assms
proof (induction m arbitrary: k out)
  case 0
  then show ?case by (subst Uint64_ReadAll_loop.simps) simp
next
  case (Suc m)
  have sl: "slice (b c) k (k + 8) = Inr (take 8 (drop k (b c)))"
    using Suc.prems by (simp add: slice_row)
  obtain v where le: "LittleEndian_Uint64 (take 8 (drop k (b c))) = Inr v"
    using Suc.prems LittleEndian_Uint64_total [of "take 8 (drop k (b c))"] by auto
  have ih: "Uint64_ReadAll_loop c (k + 8) (out @ [v]) =
      Some (Inr (c, (out @ [v]) @
         map (projr \<circ> LittleEndian_Uint64) (rows 8 m (drop (k + 8) (b c)))))"
    using Suc.prems by (intro Suc.IH) simp_all
  have lt: "k < totalByte c" using Suc.prems by simp
  show ?case
    apply (subst Uint64_ReadAll_loop.simps)
    apply (simp only: lt if_True Suc.prems(1) sl sum.case le ih)
    apply (simp add: add.commute le)
    done
qed

lemma Uint64_drain_rows:
  assumes "size_col c = 8" and "totalByte c = length (b c)"
    and "length (b c) = i c + 8 * m"
  shows "\<exists>c'. Uint64_drain c acc =
           Some (Inr (c', acc @ map (projr \<circ> LittleEndian_Uint64) (rows 8 m (drop (i c) (b c)))))"
  using assms
proof (induction m arbitrary: c acc)
  case 0
  then show ?case by (subst Uint64_drain.simps) (simp add: Uint64_Next_def)
next
  case (Suc m)
  have sl: "slice (b c) (i c) (i c + 8) = Inr (take 8 (drop (i c) (b c)))"
    using Suc.prems by (simp add: slice_row)
  obtain v where le: "LittleEndian_Uint64 (take 8 (drop (i c) (b c))) = Inr v"
    using Suc.prems LittleEndian_Uint64_total [of "take 8 (drop (i c) (b c))"] by auto
  let ?c1 = "c\<lparr>i := i c + 8, val := v\<rparr>"
  have nx: "Uint64_Next c = Inr (?c1, True)"
    using Suc.prems sl le by (simp add: Uint64_Next_def Let_def)
  obtain c' where ih: "Uint64_drain ?c1 (acc @ [v]) =
      Some (Inr (c', (acc @ [v]) @
         map (projr \<circ> LittleEndian_Uint64) (rows 8 m (drop (i ?c1) (b ?c1)))))"
    using Suc.IH [of ?c1 "acc @ [v]"] Suc.prems by auto
  show ?case
    apply (subst Uint64_drain.simps)
    apply (simp only: nx sum.case prod.case if_True Uint64_Value_def)
    using ih apply (simp add: add.commute le)
    done
qed

lemma length_rows: "length (rows w m xs) = m"
  by (induction m arbitrary: xs) simp_all

lemma rows_concat:
  "\<forall>x \<in> set xss. length x = w \<Longrightarrow> rows w (length xss) (concat xss @ rest) = xss"
  by (induction xss) simp_all

subsection \<open>Round trip of \<^verbatim>\<open>Uint64\<close>\<close>

lemma length_le_bytes: "length (le_bytes n x) = n"
  by (simp add: le_bytes_def)

lemma Uint64_Append_le_bytes:
  "Uint64_Append c v =
     c\<lparr>numRow := numRow c + 1, writerData := writerData c @ le_bytes 8 (unat v)\<rparr>"
  unfolding Uint64_Append_def by (simp only: Append_bytes_le)

lemma LittleEndian_Uint64_le_bytes:
  "LittleEndian_Uint64 (le_bytes 8 (unat v)) = Inr v"
  by (simp only: Append_bytes_le [symmetric] LittleEndian_Uint64_bytes)

lemma writerData_foldl_Uint64_Append:
  "writerData (foldl Uint64_Append c vs) =
     writerData c @ concat (map (\<lambda>v. le_bytes 8 (unat v)) vs)"
  by (induction vs arbitrary: c) (simp_all add: Uint64_Append_le_bytes)

lemma numRow_foldl_Uint64_Append:
  "numRow (foldl Uint64_Append c vs) = numRow c + length vs"
  by (induction vs arbitrary: c) (simp_all add: Uint64_Append_le_bytes)

lemma length_concat_le_bytes:
  "length (concat (map (\<lambda>v. le_bytes n (f v)) vs)) = n * length vs"
  by (induction vs) (simp_all add: length_le_bytes)

lemma decode_rows_le_bytes:
  "map (projr \<circ> LittleEndian_Uint64)
     (rows 8 (length vs) (concat (map (\<lambda>v. le_bytes 8 (unat v)) vs))) = vs"
proof -
  have "rows 8 (length (map (\<lambda>v. le_bytes 8 (unat v)) vs))
          (concat (map (\<lambda>v::64 word. le_bytes 8 (unat v)) vs) @ []) =
        map (\<lambda>v. le_bytes 8 (unat v)) vs"
    by (rule rows_concat) (simp add: length_le_bytes)
  then show ?thesis
    by (simp add: comp_def LittleEndian_Uint64_le_bytes)
qed

text \<open>
  Claim C1. Appending the values \<open>vs\<close> to a \<^verbatim>\<open>Uint64\<close> column with an empty write
  buffer writes, for each value, its 8 little-endian bytes; a column of element width 8
  that reads this buffer from cursor 0 gets back exactly \<open>vs\<close>, both from \<^verbatim>\<open>ReadAll\<close>
  (appended to the destination) and from repeated \<^verbatim>\<open>Next\<close> and \<^verbatim>\<open>Value\<close>.
\<close>

theorem Uint64_roundtrip:
  assumes "writerData c = []"
    and "b r = writerData (foldl Uint64_Append c vs)"
    and "i r = 0" and "totalByte r = length (b r)" and "size_col r = Uint64Size"
  shows "writerData (foldl Uint64_Append c vs) = concat (map (\<lambda>v. le_bytes 8 (unat v)) vs)
       \<and> length (writerData (foldl Uint64_Append c vs)) = 8 * length vs
       \<and> Uint64_ReadAll r out = Some (Inr (r, out @ vs))
       \<and> (\<exists>r'. Uint64_drain r [] = Some (Inr (r', vs)))"
proof -
  let ?bs = "concat (map (\<lambda>v::64 word. le_bytes 8 (unat v)) vs)"
  have w: "writerData (foldl Uint64_Append c vs) = ?bs"
    using assms(1) by (simp add: writerData_foldl_Uint64_Append)
  have br: "b r = ?bs" using assms(2) w by simp
  have len: "length (b r) = 0 + 8 * length vs"
    by (simp add: br length_concat_le_bytes)
  have sz: "size_col r = 8" using assms(5) by (simp add: Uint64Size_def)
  have "Uint64_ReadAll_loop r 0 out =
      Some (Inr (r, out @ map (projr \<circ> LittleEndian_Uint64) (rows 8 (length vs) (drop 0 (b r)))))"
    using sz assms(4) len by (rule Uint64_ReadAll_loop_rows)
  then have ra: "Uint64_ReadAll r out = Some (Inr (r, out @ vs))"
    by (simp add: Uint64_ReadAll_def br decode_rows_le_bytes)
  have "\<exists>r'. Uint64_drain r [] =
      Some (Inr (r', [] @ map (projr \<circ> LittleEndian_Uint64) (rows 8 (length vs) (drop (i r) (b r)))))"
    using sz assms(4) len assms(3) by (intro Uint64_drain_rows) simp_all
  then have dr: "\<exists>r'. Uint64_drain r [] = Some (Inr (r', vs))"
    by (simp add: assms(3) br decode_rows_le_bytes)
  show ?thesis using w ra dr by (simp add: length_concat_le_bytes)
qed

theorem Uint64_roundtrip_witness:
  "Uint64_ReadAll
     ((NewUint64 False)\<lparr>b := writerData (foldl Uint64_Append (NewUint64 False) [0, 18446744073709551615, 258]),
        totalByte := 24\<rparr>) [] =
   Some (Inr ((NewUint64 False)\<lparr>b := writerData (foldl Uint64_Append (NewUint64 False) [0, 18446744073709551615, 258]),
        totalByte := 24\<rparr>, [0, 18446744073709551615, 258]))
   \<and> writerData (foldl Uint64_Append (NewUint64 False) [0, 18446744073709551615, 258]) =
       [0,0,0,0,0,0,0,0, 255,255,255,255,255,255,255,255, 2,1,0,0,0,0,0,0]"
proof -
  let ?c = "NewUint64 False"
  let ?r = "?c\<lparr>b := writerData (foldl Uint64_Append ?c [0, 18446744073709551615, 258]), totalByte := 24\<rparr>"
  have h1: "writerData ?c = []" by (simp add: NewUint64_def)
  have h2: "b ?r = writerData (foldl Uint64_Append ?c [0, 18446744073709551615, 258])" by simp
  have h3: "i ?r = 0" by (simp add: NewUint64_def)
  have h4: "totalByte ?r = length (b ?r)" by (simp add: Uint64_Append_def NewUint64_def)
  have h5: "size_col ?r = Uint64Size" by (simp add: NewUint64_def)
  have bytes: "writerData (foldl Uint64_Append ?c [0, 18446744073709551615, 258]) =
       [0,0,0,0,0,0,0,0, 255,255,255,255,255,255,255,255, 2,1,0,0,0,0,0,0]"
    by (simp add: NewUint64_def Uint64_Append_def drop_bit_eq_div)
  have "Uint64_ReadAll ?r [] = Some (Inr (?r, [] @ [0, 18446744073709551615, 258]))"
    using Uint64_roundtrip [OF h1 h2 h3 h4 h5, of "[]"] by blast
  then show ?thesis using bytes by simp
qed

subsection \<open>The decoding loops of \<^verbatim>\<open>DateTime\<close> over whole rows\<close>

lemma LittleEndian_Uint32_total:
  "4 \<le> length bs \<Longrightarrow> \<exists>v. LittleEndian_Uint32 bs = Inr v"
  by (simp add: LittleEndian_Uint32_def)

lemma DateTime_ReadAll_loop_rows:
  assumes "size_col c = 4" and "totalByte c = length (b c)"
    and "length (b c) = k + 4 * m"
  shows "DateTime_ReadAll_loop c k out =
           Some (Inr (c, out @ map (\<lambda>bs. time_Unix (ucast (projr (LittleEndian_Uint32 bs))))
                                (rows 4 m (drop k (b c)))))"
  using assms
proof (induction m arbitrary: k out)
  case 0
  then show ?case by (subst DateTime_ReadAll_loop.simps) simp
next
  case (Suc m)
  have sl: "slice (b c) k (k + 4) = Inr (take 4 (drop k (b c)))"
    using Suc.prems by (simp add: slice_row)
  obtain v where le: "LittleEndian_Uint32 (take 4 (drop k (b c))) = Inr v"
    using Suc.prems LittleEndian_Uint32_total [of "take 4 (drop k (b c))"] by auto
  have ih: "DateTime_ReadAll_loop c (k + 4) (out @ [time_Unix (ucast v)]) =
      Some (Inr (c, (out @ [time_Unix (ucast v)]) @
         map (\<lambda>bs. time_Unix (ucast (projr (LittleEndian_Uint32 bs))))
           (rows 4 m (drop (k + 4) (b c)))))"
    using Suc.prems by (intro Suc.IH) simp_all
  have lt: "k < totalByte c" using Suc.prems by simp
  show ?case
    apply (subst DateTime_ReadAll_loop.simps)
    apply (simp only: lt if_True Suc.prems(1) sl sum.case le ih)
    apply (simp add: add.commute le)
    done
qed

lemma DateTime_drain_rows:
  assumes "size_col c = 4" and "totalByte c = length (b c)"
    and "length (b c) = i c + 4 * m"
  shows "\<exists>c'. DateTime_drain c acc =
           Some (Inr (c', acc @ map (\<lambda>bs. time_Unix (ucast (projr (LittleEndian_Uint32 bs))))
                                (rows 4 m (drop (i c) (b c)))))"
  using assms
proof (induction m arbitrary: c acc)
  case 0
  then show ?case by (subst DateTime_drain.simps) (simp add: DateTime_Next_def)
next
  case (Suc m)
  have sl: "slice (b c) (i c) (i c + 4) = Inr (take 4 (drop (i c) (b c)))"
    using Suc.prems by (simp add: slice_row)
  obtain v where le: "LittleEndian_Uint32 (take 4 (drop (i c) (b c))) = Inr v"
    using Suc.prems LittleEndian_Uint32_total [of "take 4 (drop (i c) (b c))"] by auto
  let ?c1 = "c\<lparr>i := i c + 4, val := time_Unix (ucast v)\<rparr>"
  have nx: "DateTime_Next c = Inr (?c1, True)"
    using Suc.prems sl le by (simp add: DateTime_Next_def Let_def)
  obtain c' where ih: "DateTime_drain ?c1 (acc @ [time_Unix (ucast v)]) =
      Some (Inr (c', (acc @ [time_Unix (ucast v)]) @
         map (\<lambda>bs. time_Unix (ucast (projr (LittleEndian_Uint32 bs))))
           (rows 4 m (drop (i ?c1) (b ?c1)))))"
    using Suc.IH [of ?c1 "acc @ [time_Unix (ucast v)]"] Suc.prems by auto
  show ?case
    apply (subst DateTime_drain.simps)
    apply (simp only: nx sum.case prod.case if_True DateTime_Value_def)
    using ih apply (simp add: add.commute le)
    done
qed

subsection \<open>Bulk and sequential reading\<close>

text \<open>
  Claim C5. For a column whose read buffer is a whole number of rows (\<^verbatim>\<open>totalByte\<close> is
  its length, a multiple of the element width) and whose cursor is 0, \<^verbatim>\<open>ReadAll\<close>
  returns and appends to its destination exactly the values that repeated \<^verbatim>\<open>Next\<close> and
  \<^verbatim>\<open>Value\<close> give until \<^verbatim>\<open>Next\<close> is false, one per row, and leaves the column as it was.
  Stated for both scalar columns, \<^verbatim>\<open>Uint64\<close> and \<^verbatim>\<open>DateTime\<close>.
\<close>

theorem ReadAll_eq_sequential:
  "(size_col c = Uint64Size \<and> i c = 0 \<and> totalByte c = length (b c) \<and>
      Uint64Size dvd length (b c) \<longrightarrow>
      (\<exists>vals c'. length vals = length (b c) div Uint64Size \<and>
         Uint64_ReadAll c out = Some (Inr (c, out @ vals)) \<and>
         Uint64_drain c [] = Some (Inr (c', vals))))
   \<and> (size_col d = DatetimeSize \<and> i d = 0 \<and> totalByte d = length (b d) \<and>
      DatetimeSize dvd length (b d) \<longrightarrow>
      (\<exists>vals d'. length vals = length (b d) div DatetimeSize \<and>
         DateTime_ReadAll d tout = Some (Inr (d, tout @ vals)) \<and>
         DateTime_drain d [] = Some (Inr (d', vals))))"
proof (intro conjI impI)
  assume h: "size_col c = Uint64Size \<and> i c = 0 \<and> totalByte c = length (b c) \<and>
      Uint64Size dvd length (b c)"
  then obtain m where m: "length (b c) = 8 * m" by (auto simp: Uint64Size_def)
  let ?vals = "map (projr \<circ> LittleEndian_Uint64) (rows 8 m (drop 0 (b c)))"
  have sz: "size_col c = 8" using h by (simp add: Uint64Size_def)
  have tb: "totalByte c = length (b c)" using h by simp
  have len: "length (b c) = 0 + 8 * m" using m by simp
  have leni: "length (b c) = i c + 8 * m" using m h by simp
  have ra: "Uint64_ReadAll c out = Some (Inr (c, out @ ?vals))"
    unfolding Uint64_ReadAll_def using sz tb len by (rule Uint64_ReadAll_loop_rows)
  obtain c' where dr: "Uint64_drain c [] = Some (Inr (c', ?vals))"
    using Uint64_drain_rows [OF sz tb leni, of "[]"] h by auto
  have l: "length ?vals = length (b c) div Uint64Size"
    by (simp add: m Uint64Size_def length_rows)
  show "\<exists>vals c'. length vals = length (b c) div Uint64Size \<and>
         Uint64_ReadAll c out = Some (Inr (c, out @ vals)) \<and>
         Uint64_drain c [] = Some (Inr (c', vals))"
    using ra dr l by blast
next
  assume h: "size_col d = DatetimeSize \<and> i d = 0 \<and> totalByte d = length (b d) \<and>
      DatetimeSize dvd length (b d)"
  then obtain m where m: "length (b d) = 4 * m" by (auto simp: DatetimeSize_def)
  let ?vals = "map (\<lambda>bs. time_Unix (ucast (projr (LittleEndian_Uint32 bs))))
                 (rows 4 m (drop 0 (b d)))"
  have sz: "size_col d = 4" using h by (simp add: DatetimeSize_def)
  have tb: "totalByte d = length (b d)" using h by simp
  have len: "length (b d) = 0 + 4 * m" using m by simp
  have leni: "length (b d) = i d + 4 * m" using m h by simp
  have ra: "DateTime_ReadAll d tout = Some (Inr (d, tout @ ?vals))"
    unfolding DateTime_ReadAll_def using sz tb len by (rule DateTime_ReadAll_loop_rows)
  obtain d' where dr: "DateTime_drain d [] = Some (Inr (d', ?vals))"
    using DateTime_drain_rows [OF sz tb leni, of "[]"] h by auto
  have l: "length ?vals = length (b d) div DatetimeSize"
    by (simp add: m DatetimeSize_def length_rows)
  show "\<exists>vals d'. length vals = length (b d) div DatetimeSize \<and>
         DateTime_ReadAll d tout = Some (Inr (d, tout @ vals)) \<and>
         DateTime_drain d [] = Some (Inr (d', vals))"
    using ra dr l by blast
qed

theorem ReadAll_eq_sequential_witness:
  "(size_col ((NewUint64 False)\<lparr>b := [1,0,0,0,0,0,0,0, 2,1,0,0,0,0,0,0], totalByte := 16\<rparr>) = Uint64Size
    \<and> Uint64Size dvd length (b ((NewUint64 False)\<lparr>b := [1,0,0,0,0,0,0,0, 2,1,0,0,0,0,0,0], totalByte := 16\<rparr>)))
   \<and> (\<exists>vals c'. length vals = 2 \<and>
         Uint64_ReadAll ((NewUint64 False)\<lparr>b := [1,0,0,0,0,0,0,0, 2,1,0,0,0,0,0,0], totalByte := 16\<rparr>) [7] =
           Some (Inr ((NewUint64 False)\<lparr>b := [1,0,0,0,0,0,0,0, 2,1,0,0,0,0,0,0], totalByte := 16\<rparr>, 7 # vals)) \<and>
         Uint64_drain ((NewUint64 False)\<lparr>b := [1,0,0,0,0,0,0,0, 2,1,0,0,0,0,0,0], totalByte := 16\<rparr>) [] =
           Some (Inr (c', vals)))
   \<and> (size_col ((NewDateTime False)\<lparr>b := [1,0,0,0, 2,1,0,0], totalByte := 8\<rparr>) = DatetimeSize
    \<and> DatetimeSize dvd length (b ((NewDateTime False)\<lparr>b := [1,0,0,0, 2,1,0,0], totalByte := 8\<rparr>)))
   \<and> (\<exists>vals d'. length vals = 2 \<and>
         DateTime_ReadAll ((NewDateTime False)\<lparr>b := [1,0,0,0, 2,1,0,0], totalByte := 8\<rparr>) [] =
           Some (Inr ((NewDateTime False)\<lparr>b := [1,0,0,0, 2,1,0,0], totalByte := 8\<rparr>, vals)) \<and>
         DateTime_drain ((NewDateTime False)\<lparr>b := [1,0,0,0, 2,1,0,0], totalByte := 8\<rparr>) [] =
           Some (Inr (d', vals)))"
proof -
  let ?c = "(NewUint64 False)\<lparr>b := [1,0,0,0,0,0,0,0, 2,1,0,0,0,0,0,0], totalByte := 16\<rparr>"
  let ?d = "(NewDateTime False)\<lparr>b := [1,0,0,0, 2,1,0,0], totalByte := 8\<rparr>"
  have hc: "size_col ?c = Uint64Size \<and> i ?c = 0 \<and> totalByte ?c = length (b ?c) \<and>
      Uint64Size dvd length (b ?c)"
  proof -
    have "Uint64Size dvd length (b ?c)"
      unfolding Uint64Size_def by (rule dvdI [where k = 2]) simp
    then show ?thesis by (simp add: NewUint64_def)
  qed
  have hd: "size_col ?d = DatetimeSize \<and> i ?d = 0 \<and> totalByte ?d = length (b ?d) \<and>
      DatetimeSize dvd length (b ?d)"
  proof -
    have "DatetimeSize dvd length (b ?d)"
      unfolding DatetimeSize_def by (rule dvdI [where k = 2]) simp
    then show ?thesis by (simp add: NewDateTime_def)
  qed
  have lc: "length (b ?c) div Uint64Size = 2" by (simp add: Uint64Size_def)
  have ld: "length (b ?d) div DatetimeSize = 2" by (simp add: DatetimeSize_def)
  note R = ReadAll_eq_sequential [of ?c "[7]" ?d "[]"]
  have 1: "\<exists>vals c'. length vals = 2 \<and>
         Uint64_ReadAll ?c [7] = Some (Inr (?c, 7 # vals)) \<and>
         Uint64_drain ?c [] = Some (Inr (c', vals))"
    using R [THEN conjunct1, rule_format, OF hc] unfolding lc by simp
  have 2: "\<exists>vals d'. length vals = 2 \<and>
         DateTime_ReadAll ?d [] = Some (Inr (?d, vals)) \<and>
         DateTime_drain ?d [] = Some (Inr (d', vals))"
    using R [THEN conjunct2, rule_format, OF hd] unfolding ld by simp
  show ?thesis using hc hd 1 2 by blast
qed

subsection \<open>\<^verbatim>\<open>AppendEmpty\<close> and \<^verbatim>\<open>Append(0)\<close>\<close>

lemma emptyByte_upto_8: "emptyByte_upto 8 = [0, 0, 0, 0, 0, 0, 0, 0]"
  by (simp add: emptyByte_upto_def numeral_eq_Suc)

lemma Uint64_Append_zero:
  "Uint64_Append c 0 =
     c\<lparr>numRow := numRow c + 1, writerData := writerData c @ replicate 8 0\<rparr>"
  by (simp add: Uint64_Append_def numeral_eq_Suc)

lemma Uint64_AppendEmpty_zero:
  "size_col c = Uint64Size \<Longrightarrow>
   Uint64_AppendEmpty c =
     c\<lparr>numRow := numRow c + 1, writerData := writerData c @ replicate 8 0\<rparr>"
  by (simp add: Uint64_AppendEmpty_def Uint64Size_def emptyByte_upto_def)

lemma foldl_empty_or_zero:
  "size_col c = Uint64Size \<Longrightarrow>
   foldl (\<lambda>s e. if e then Uint64_AppendEmpty s else Uint64_Append s 0) c es =
     c\<lparr>numRow := numRow c + length es,
       writerData := writerData c @ replicate (8 * length es) 0\<rparr>"
proof (induction es arbitrary: c)
  case Nil
  then show ?case by simp
next
  case (Cons e es)
  let ?c1 = "c\<lparr>numRow := numRow c + 1, writerData := writerData c @ replicate 8 0\<rparr>"
  have step: "(if e then Uint64_AppendEmpty c else Uint64_Append c 0) = ?c1"
    using Cons.prems by (simp add: Uint64_Append_zero Uint64_AppendEmpty_zero)
  have sz: "size_col ?c1 = Uint64Size" using Cons.prems by simp
  have "replicate 8 (0::byte) @ replicate (8 * length es) 0 = replicate (8 * length (e # es)) 0"
    by (simp add: replicate_add [symmetric])
  then show ?case
    using Cons.IH [OF sz] by (simp add: step)
qed

text \<open>
  Claim C10. On a \<^verbatim>\<open>Uint64\<close> column (element width \<^verbatim>\<open>Uint64Size\<close>), \<^verbatim>\<open>AppendEmpty()\<close>
  and \<^verbatim>\<open>Append(0)\<close> give the same column: 8 zero bytes more in the write buffer and one
  row more. Hence any sequence of the two calls, in any order, gives the write buffer
  extended by \<open>8 * n\<close> zero bytes and the row count increased by \<open>n\<close>.
\<close>

theorem Uint64_AppendEmpty_eq_Append_zero:
  assumes "size_col c = Uint64Size"
  shows "Uint64_AppendEmpty c = Uint64_Append c 0
       \<and> Uint64_Append c 0 =
           c\<lparr>numRow := numRow c + 1, writerData := writerData c @ replicate 8 0\<rparr>
       \<and> foldl (\<lambda>s e. if e then Uint64_AppendEmpty s else Uint64_Append s 0) c es =
           c\<lparr>numRow := numRow c + length es,
             writerData := writerData c @ replicate (8 * length es) 0\<rparr>"
  using assms
  by (simp add: Uint64_Append_zero Uint64_AppendEmpty_zero foldl_empty_or_zero)

theorem Uint64_AppendEmpty_eq_Append_zero_witness:
  "Uint64_AppendEmpty (NewUint64 False) = Uint64_Append (NewUint64 False) 0
   \<and> writerData (Uint64_AppendEmpty (Uint64_Append (Uint64_AppendEmpty (NewUint64 False)) 0)) =
       replicate 24 0
   \<and> numRow (Uint64_AppendEmpty (Uint64_Append (Uint64_AppendEmpty (NewUint64 False)) 0)) = 3"
proof -
  have h: "size_col (NewUint64 False) = Uint64Size" by (simp add: NewUint64_def)
  note R = Uint64_AppendEmpty_eq_Append_zero [OF h, of "[True, False, True]"]
  have 1: "Uint64_AppendEmpty (NewUint64 False) = Uint64_Append (NewUint64 False) 0"
    using R by blast
  have 2: "Uint64_AppendEmpty (Uint64_Append (Uint64_AppendEmpty (NewUint64 False)) 0) =
     (NewUint64 False)\<lparr>numRow := numRow (NewUint64 False) + length [True, False, True],
        writerData := writerData (NewUint64 False) @ replicate (8 * length [True, False, True]) 0\<rparr>"
    using R [THEN conjunct2, THEN conjunct2] by simp
  show ?thesis
    apply (intro conjI)
      apply (rule 1)
     apply (simp only: 2)
     apply (simp add: NewUint64_def)
    apply (simp only: 2)
    apply (simp add: NewUint64_def)
    done
qed

subsection \<open>The dictionary of \<^verbatim>\<open>Uint64\<close>\<close>

lemma dict_inv_fcard: "dict_inv seen c \<Longrightarrow> fcard (fmdom (dict c)) = length seen"
proof -
  assume a: "dict_inv seen c"
  have "fmdom (dict c) = fset_of_list seen"
  proof (rule fset_eqI)
    fix x show "x |\<in>| fmdom (dict c) \<longleftrightarrow> x |\<in>| fset_of_list seen"
      using a by (auto simp: dict_inv_def fmlookup_dom_iff fset_of_list_elem)
  qed
  moreover have "fcard (fset_of_list seen) = length seen"
    using a by (simp add: dict_inv_def fcard.rep_eq fset_of_list.rep_eq distinct_card)
  ultimately show ?thesis by simp
qed

lemma index_of_append_in: "v \<in> set xs \<Longrightarrow> index_of (xs @ ys) v = index_of xs v"
  by (induction xs) auto

lemma index_of_append_new: "v \<notin> set xs \<Longrightarrow> index_of (xs @ [v]) v = length xs"
  by (induction xs) auto

lemma dict_inv_insert:
  assumes "dict_inv seen c" and "v \<notin> set seen"
    and "dict c' = fmupd v (int (length seen)) (dict c)"
  shows "dict_inv (seen @ [v]) c'"
  using assms
  by (auto simp: dict_inv_def index_of_append_in index_of_append_new)

lemma first_occurrences_prefix: "\<exists>ys. first_occurrences seen xs = seen @ ys"
  by (induction xs arbitrary: seen) (auto, metis append_assoc)

lemma index_of_first_occurrences:
  "v \<in> set seen \<Longrightarrow> index_of (first_occurrences seen xs) v = index_of seen v"
  using first_occurrences_prefix [of seen xs] by (auto simp: index_of_append_in)

lemma first_occurrences_append:
  "first_occurrences seen (xs @ ys) = first_occurrences (first_occurrences seen xs) ys"
  by (induction xs arbitrary: seen) simp_all

lemma call_values_Cons:
  "call_values (call # calls) =
     (case call_value call of None \<Rightarrow> [] | Some v \<Rightarrow> [v]) @ call_values calls"
  by (simp add: call_values_def)

lemma Uint64_AppendDict_seen:
  assumes "dict_inv seen c" and "v \<in> set seen"
  shows "Uint64_AppendDict c v =
           c\<lparr>keys := keys c @ [if nullable c then int (index_of seen v) + 1
                                 else int (index_of seen v)]\<rparr>"
  using assms by (simp add: Uint64_AppendDict_def dict_inv_def)

lemma Uint64_AppendDict_new:
  assumes "dict_inv seen c" and "v \<notin> set seen"
  shows "Uint64_AppendDict c v =
           c\<lparr>numRow := numRow c + 1,
             writerData := writerData c @ le_bytes 8 (unat v),
             dict := fmupd v (int (length seen)) (dict c),
             keys := keys c @ [if nullable c then int (length seen) + 1
                                 else int (length seen)]\<rparr>"
  using assms dict_inv_fcard [OF assms(1)]
  by (simp add: Uint64_AppendDict_def dict_inv_def Uint64_Append_le_bytes Let_def)

lemma Uint64_AppendDictP_seen:
  assumes "dict_inv seen c" and "v \<in> set seen"
  shows "Uint64_AppendDictP c (Some v) =
           c\<lparr>keys := keys c @ [int (index_of seen v) + 1]\<rparr>"
  using assms by (simp add: Uint64_AppendDictP_def dict_inv_def)

lemma Uint64_AppendDictP_new:
  assumes "dict_inv seen c" and "v \<notin> set seen"
  shows "Uint64_AppendDictP c (Some v) =
           c\<lparr>numRow := numRow c + 1,
             writerData := writerData c @ le_bytes 8 (unat v),
             dict := fmupd v (int (length seen)) (dict c),
             keys := keys c @ [int (length seen) + 1]\<rparr>"
  using assms dict_inv_fcard [OF assms(1)]
  by (simp add: Uint64_AppendDictP_def dict_inv_def Uint64_Append_le_bytes Let_def)

lemma dict_inv_keys_update: "dict_inv seen (c\<lparr>keys := ks\<rparr>) = dict_inv seen c"
  by (simp add: dict_inv_def)

lemma value_step:
  assumes "dict_inv seen c" and "nullable c"
    and "c' = Uint64_AppendDict c v \<or> c' = Uint64_AppendDictP c (Some v)"
  shows "dict_inv (first_occurrences seen [v]) c' \<and> nullable c' \<and>
         keys c' = keys c @ [expected_key (first_occurrences seen [v]) (Some v)]"
proof (cases "v \<in> set seen")
  case True
  then show ?thesis
    using assms
    by (auto simp: Uint64_AppendDict_seen Uint64_AppendDictP_seen expected_key_def
        dict_inv_keys_update)
next
  case False
  have "dict_inv (seen @ [v]) c'"
    using assms False
    by (intro dict_inv_insert [OF assms(1) False])
       (auto simp: Uint64_AppendDict_new Uint64_AppendDictP_new)
  then show ?thesis
    using assms False
    by (auto simp: Uint64_AppendDict_new Uint64_AppendDictP_new expected_key_def
        index_of_append_new)
qed

lemma call_step:
  assumes "dict_inv seen c" and "nullable c"
  shows "dict_inv (first_occurrences seen (call_values [call])) (Uint64_call c call) \<and>
         nullable (Uint64_call c call) \<and>
         keys (Uint64_call c call) =
           keys c @ [expected_key (first_occurrences seen (call_values [call])) (call_value call)]"
proof (cases "call_value call")
  case None
  then have "Uint64_call c call = c\<lparr>keys := keys c @ [0]\<rparr>"
    by (cases call) (simp_all add: Uint64_AppendDictNil_def Uint64_AppendDictP_def)
  then show ?thesis
    using assms None by (simp add: call_values_def expected_key_def dict_inv_keys_update)
next
  case (Some v)
  then have "Uint64_call c call = Uint64_AppendDict c v \<or>
             Uint64_call c call = Uint64_AppendDictP c (Some v)"
    by (cases call) simp_all
  from value_step [OF assms this] show ?thesis
    using Some by (simp add: call_values_def)
qed

lemma expected_key_stable:
  assumes "case p of None \<Rightarrow> True | Some v \<Rightarrow> v \<in> set seen"
  shows "expected_key (first_occurrences seen xs) p = expected_key seen p"
  using assms by (cases p) (simp_all add: expected_key_def index_of_first_occurrences)

lemma call_value_in_first_occurrences:
  "case call_value call of None \<Rightarrow> True
   | Some v \<Rightarrow> v \<in> set (first_occurrences seen (call_values [call]))"
  by (cases "call_value call") (simp_all add: call_values_def)

lemma run_calls:
  assumes "dict_inv seen c" and "nullable c"
  shows "dict_inv (first_occurrences seen (call_values calls)) (foldl Uint64_call c calls) \<and>
         nullable (foldl Uint64_call c calls) \<and>
         keys (foldl Uint64_call c calls) =
           keys c @ map (\<lambda>call. expected_key (first_occurrences seen (call_values calls))
                                  (call_value call)) calls"
  using assms
proof (induction calls arbitrary: seen c)
  case Nil
  then show ?case by (simp add: call_values_def)
next
  case (Cons call calls)
  let ?seen1 = "first_occurrences seen (call_values [call])"
  let ?c1 = "Uint64_call c call"
  have s: "dict_inv ?seen1 ?c1" "nullable ?c1"
    "keys ?c1 = keys c @ [expected_key ?seen1 (call_value call)]"
    using call_step [OF Cons.prems, of call] by simp_all
  have fo: "first_occurrences seen (call_values (call # calls)) =
            first_occurrences ?seen1 (call_values calls)"
    by (simp only: call_values_Cons first_occurrences_append call_values_def
        list.map concat.simps append_Nil2)
  have st: "expected_key (first_occurrences ?seen1 (call_values calls)) (call_value call) =
            expected_key ?seen1 (call_value call)"
    by (rule expected_key_stable) (rule call_value_in_first_occurrences)
  show ?case
    using Cons.IH [OF s(1) s(2)] by (simp add: fo s(3) st)
qed

lemma dict_inv_New: "dict_inv [] (NewUint64 nl)"
  by (simp add: dict_inv_def NewUint64_def)

lemma dict_inv_Reset: "dict_inv [] (Uint64_Reset c)"
  by (simp add: dict_inv_def Uint64_Reset_def)

lemma expected_key_zero_iff: "(expected_key seen p = 0) = (p = None)"
  by (cases p) (simp_all add: expected_key_def)

text \<open>
  Claim C4. On a nullable \<^verbatim>\<open>Uint64\<close> column, fresh or just reset, after any sequence of
  \<^verbatim>\<open>AppendDict\<close>, \<^verbatim>\<open>AppendDictNil\<close> and \<^verbatim>\<open>AppendDictP\<close> calls: \<^verbatim>\<open>AppendDictNil\<close> appends
  key 0 and changes nothing else; \<^verbatim>\<open>AppendDictP(nil)\<close> gives the same column as
  \<^verbatim>\<open>AppendDictNil\<close>; the key recorded for each call is 0 for a nil and, for a value, its
  position among the distinct values in first-occurrence order plus 1. So a key is 0
  exactly when its call was a nil, and every key of a value is at least 1.
\<close>

theorem nullable_dict_sentinel:
  assumes "c0 = NewUint64 True \<or> c0 = Uint64_Reset c1 \<and> nullable c1"
  shows "Uint64_AppendDictNil (foldl Uint64_call c0 calls) =
           (foldl Uint64_call c0 calls)\<lparr>keys := keys (foldl Uint64_call c0 calls) @ [0]\<rparr>
       \<and> Uint64_AppendDictP (foldl Uint64_call c0 calls) None =
           Uint64_AppendDictNil (foldl Uint64_call c0 calls)
       \<and> keys (foldl Uint64_call c0 calls) =
           map (\<lambda>call. expected_key (first_occurrences [] (call_values calls)) (call_value call))
             calls
       \<and> (\<forall>j < length calls.
             (keys (foldl Uint64_call c0 calls) ! j = 0) = (call_value (calls ! j) = None)
           \<and> (call_value (calls ! j) \<noteq> None \<longrightarrow> 1 \<le> keys (foldl Uint64_call c0 calls) ! j))"
proof -
  have inv: "dict_inv [] c0" using assms by (auto simp: dict_inv_New dict_inv_Reset)
  have nl: "nullable c0"
    using assms by (auto simp: NewUint64_def Uint64_Reset_def column_Reset_def)
  have k0: "keys c0 = []" using assms by (auto simp: NewUint64_def Uint64_Reset_def)
  have ks: "keys (foldl Uint64_call c0 calls) =
           map (\<lambda>call. expected_key (first_occurrences [] (call_values calls)) (call_value call))
             calls"
    using run_calls [OF inv nl, of calls] by (simp add: k0)
  have z: "\<forall>j < length calls.
             (keys (foldl Uint64_call c0 calls) ! j = 0) = (call_value (calls ! j) = None)"
    by (simp add: ks expected_key_zero_iff)
  have p: "\<forall>j < length calls. call_value (calls ! j) \<noteq> None \<longrightarrow>
             1 \<le> keys (foldl Uint64_call c0 calls) ! j"
    by (auto simp: ks expected_key_def)
  show ?thesis
    using ks z p by (simp add: Uint64_AppendDictNil_def Uint64_AppendDictP_def)
qed

theorem nullable_dict_sentinel_witness:
  "keys (foldl Uint64_call (NewUint64 True)
           [Call_AppendDict 7, Call_AppendDictNil, Call_AppendDictP (Some 9),
            Call_AppendDictP None, Call_AppendDictP (Some 7)]) = [1, 0, 2, 0, 1]
   \<and> call_value ([Call_AppendDict 7, Call_AppendDictNil, Call_AppendDictP (Some 9),
            Call_AppendDictP None, Call_AppendDictP (Some 7)] ! 2) \<noteq> None
   \<and> 1 \<le> keys (foldl Uint64_call (NewUint64 True)
           [Call_AppendDict 7, Call_AppendDictNil, Call_AppendDictP (Some 9),
            Call_AppendDictP None, Call_AppendDictP (Some 7)]) ! 2"
proof -
  let ?calls = "[Call_AppendDict 7, Call_AppendDictNil, Call_AppendDictP (Some 9),
            Call_AppendDictP None, Call_AppendDictP (Some 7)]"
  have h: "NewUint64 True = NewUint64 True \<or>
           NewUint64 True = Uint64_Reset (NewUint64 True) \<and> nullable (NewUint64 True)"
    by simp
  note R = nullable_dict_sentinel [OF h, of ?calls]
  have ks: "keys (foldl Uint64_call (NewUint64 True) ?calls) =
      map (\<lambda>call. expected_key (first_occurrences [] (call_values ?calls)) (call_value call))
        ?calls"
    using R by blast
  have v: "keys (foldl Uint64_call (NewUint64 True) ?calls) = [1, 0, 2, 0, 1]"
    unfolding ks by (simp add: call_values_def expected_key_def)
  have n: "call_value (?calls ! 2) \<noteq> None" by simp
  have "2 < length ?calls" by simp
  with R n have "1 \<le> keys (foldl Uint64_call (NewUint64 True) ?calls) ! 2" by blast
  with v n show ?thesis by blast
qed

subsection \<open>Dictionary deduplication\<close>

lemma AppendDict_sequence:
  assumes "x \<noteq> y" and "x \<noteq> z" and "y \<noteq> z"
    and "writerData c0 = []" and "dict c0 = fmempty" and "keys c0 = []" and "\<not> nullable c0"
  shows "writerData (foldl Uint64_AppendDict c0 [x, y, x, z, y]) =
           le_bytes 8 (unat x) @ le_bytes 8 (unat y) @ le_bytes 8 (unat z)
       \<and> keys (foldl Uint64_AppendDict c0 [x, y, x, z, y]) = [0, 1, 0, 2, 1]"
  using assms
  by (simp add: Uint64_AppendDict_def Let_def Uint64_Append_le_bytes fcard_finsert_if)

text \<open>
  Claim C2. On a non-nullable \<^verbatim>\<open>Uint64\<close> column, fresh or just reset, the calls
  \<^verbatim>\<open>AppendDict\<close> of \<open>x, y, x, z, y\<close> with distinct \<open>x, y, z\<close> leave the write buffer
  holding the encodings of \<open>x, y, z\<close> in this order and \<^verbatim>\<open>Keys()\<close> equal to
  \<open>[0, 1, 0, 2, 1]\<close>. In any state, \<^verbatim>\<open>AppendDict\<close> of a value already in the dictionary
  only appends its key (shifted by one on a nullable column): the write buffer, the row
  count and the dictionary stay as they are.
\<close>

theorem AppendDict_dedup:
  assumes "x \<noteq> y" and "x \<noteq> z" and "y \<noteq> z"
    and "c0 = NewUint64 False \<or> c0 = Uint64_Reset c1 \<and> \<not> nullable c1"
  shows "writerData (foldl Uint64_AppendDict c0 [x, y, x, z, y]) =
           le_bytes 8 (unat x) @ le_bytes 8 (unat y) @ le_bytes 8 (unat z)
       \<and> Uint64_Keys (foldl Uint64_AppendDict c0 [x, y, x, z, y]) = [0, 1, 0, 2, 1]
       \<and> (\<forall>s v k. fmlookup (dict s) v = Some k \<longrightarrow>
            Uint64_AppendDict s v =
              s\<lparr>keys := keys s @ [if nullable s then k + 1 else k]\<rparr>)"
proof -
  have f: "writerData c0 = []" "dict c0 = fmempty" "keys c0 = []" "\<not> nullable c0"
    using assms(4) by (auto simp: NewUint64_def Uint64_Reset_def column_Reset_def)
  have g: "\<forall>s v k. fmlookup (dict s) v = Some k \<longrightarrow>
            Uint64_AppendDict s v =
              s\<lparr>keys := keys s @ [if nullable s then k + 1 else k]\<rparr>"
    by (simp add: Uint64_AppendDict_def)
  show ?thesis
    using AppendDict_sequence [OF assms(1-3) f] g by (simp add: Uint64_Keys_def)
qed

theorem AppendDict_dedup_witness:
  "writerData (foldl Uint64_AppendDict (NewUint64 False) [5, 6, 5, 7, 6]) =
     [5,0,0,0,0,0,0,0, 6,0,0,0,0,0,0,0, 7,0,0,0,0,0,0,0]
   \<and> Uint64_Keys (foldl Uint64_AppendDict (NewUint64 False) [5, 6, 5, 7, 6]) = [0, 1, 0, 2, 1]
   \<and> Uint64_AppendDict (foldl Uint64_AppendDict (NewUint64 False) [5, 6, 5, 7, 6]) 6 =
       (foldl Uint64_AppendDict (NewUint64 False) [5, 6, 5, 7, 6])
         \<lparr>keys := [0, 1, 0, 2, 1, 1]\<rparr>"
proof -
  let ?c = "foldl Uint64_AppendDict (NewUint64 False) [5, 6, 5, 7, 6]"
  have d: "(5::64 word) \<noteq> 6" "(5::64 word) \<noteq> 7" "(6::64 word) \<noteq> 7" by simp_all
  have h: "NewUint64 False = NewUint64 False \<or>
           NewUint64 False = Uint64_Reset (NewUint64 False) \<and> \<not> nullable (NewUint64 False)"
    by simp
  note R = AppendDict_dedup [OF d h]
  have w: "writerData ?c = le_bytes 8 (unat (5::64 word)) @ le_bytes 8 (unat (6::64 word)) @
                           le_bytes 8 (unat (7::64 word))"
    using R by blast
  have ks: "Uint64_Keys ?c = [0, 1, 0, 2, 1]" using R by blast
  have lk: "fmlookup (dict ?c) 6 = Some 1"
    by (simp add: Uint64_AppendDict_def Let_def Uint64_Append_def NewUint64_def fcard_finsert_if)
  have nn: "\<not> nullable ?c"
    by (simp add: Uint64_AppendDict_def Let_def Uint64_Append_def NewUint64_def fcard_finsert_if)
  have ad: "Uint64_AppendDict ?c 6 = ?c\<lparr>keys := keys ?c @ [if nullable ?c then 1 + 1 else 1]\<rparr>"
    using R lk by blast
  have bytes: "le_bytes 8 (unat (5::64 word)) @ le_bytes 8 (unat (6::64 word)) @
               le_bytes 8 (unat (7::64 word)) =
               [5,0,0,0,0,0,0,0, 6,0,0,0,0,0,0,0, 7,0,0,0,0,0,0,0]"
    by (simp add: le_bytes_def upt8)
  have ks': "keys ?c = [0, 1, 0, 2, 1]" using ks by (simp only: Uint64_Keys_def)
  show ?thesis
    apply (intro conjI)
      apply (simp only: w bytes)
     apply (rule ks)
    apply (simp only: ad nn if_False ks')
    apply simp
    done
qed

subsection \<open>Bytes of an epoch value\<close>

lemma ucast_signed_drop_bit_byte:
  "m \<le> 56 \<Longrightarrow> (ucast (signed_drop_bit m (t::64 word)) :: byte) = ucast (drop_bit m t)"
  by (rule bit_word_eqI) (auto simp add: bit_simps)

lemma upt4: "[0..<4] = [0,1,2,3]"
  by (simp add: upt_rec)

lemma digit_mod32:
  assumes "j \<le> 24"
  shows "(x mod 2 ^ 32) div 2 ^ j mod 2 ^ 8 = x div 2 ^ j mod (2 ^ 8 :: nat)"
proof -
  have "take_bit 8 (drop_bit j (take_bit 32 x)) = take_bit 8 (drop_bit j x)"
  proof -
    have "min 8 (32 - j) = 8" using assms by simp
    then show ?thesis by (simp add: drop_bit_take_bit)
  qed
  then show ?thesis by (simp only: take_bit_eq_mod drop_bit_eq_div)
qed

lemma le_bytes4_mod: "le_bytes 4 (x mod 2 ^ 32) = le_bytes 4 x"
  using digit_mod32 [of 0 x] digit_mod32 [of 8 x] digit_mod32 [of 16 x] digit_mod32 [of 24 x]
  by (simp add: le_bytes_def upt4)

lemma DateTime_bytes_le:
  "[ucast t, ucast (signed_drop_bit 8 t), ucast (signed_drop_bit 16 t),
    ucast (signed_drop_bit 24 t)] = le_bytes 4 (unat (t::64 word))"
proof -
  have "(ucast t :: byte) = ucast (drop_bit 0 t)" by simp
  then show ?thesis
    unfolding le_bytes_def upt4
    by (simp only: ucast_signed_drop_bit_byte ucast_drop_bit_byte list.map) simp
qed

lemma or_bytes32:
  "ucast (ucast t :: byte) OR push_bit 8 (ucast (ucast (drop_bit 8 t) :: byte)) OR
   push_bit 16 (ucast (ucast (drop_bit 16 t) :: byte)) OR
   push_bit 24 (ucast (ucast (drop_bit 24 t) :: byte)) = (ucast (t :: 64 word) :: 32 word)"
  (is "?w = _")
proof (rule bit_word_eqI)
  fix n assume "n < LENGTH(32)"
  then have n: "n < 32" by simp
  consider "n < 8" | "8 \<le> n" "n < 16" | "16 \<le> n" "n < 24" | "24 \<le> n" "n < 32"
    using n by linarith
  then show "bit ?w n = bit (ucast t :: 32 word) n"
    by cases (simp_all add: bit_simps nat_diff_less_conv)
qed

lemma LittleEndian_Uint32_bytes:
  "LittleEndian_Uint32
     [ucast t, ucast (signed_drop_bit 8 t), ucast (signed_drop_bit 16 t),
      ucast (signed_drop_bit 24 t)] = Inr (ucast (t :: 64 word))"
proof -
  have "[ucast t, ucast (signed_drop_bit 8 t), ucast (signed_drop_bit 16 t),
         ucast (signed_drop_bit 24 t)] =
        [ucast t :: byte, ucast (drop_bit 8 t), ucast (drop_bit 16 t), ucast (drop_bit 24 t)]"
    by (simp add: ucast_signed_drop_bit_byte)
  then show ?thesis
    using or_bytes32 [of t] by (simp add: LittleEndian_Uint32_def)
qed

lemma sint_nonneg_uint:
  assumes "0 \<le> sint (t::64 word)"
  shows "sint t = uint t"
proof (rule bit_eqI)
  fix n
  have "\<not> bit t (LENGTH(64) - Suc 0)"
    using assms by (simp only: bit_last_iff)
  then have "\<not> bit t 63" by simp
  moreover have "bit t n \<Longrightarrow> n < 64"
    by (auto dest: bit_imp_le_length)
  ultimately show "bit (sint t) n = bit (uint t) n"
    by (auto simp: bit_sint_iff bit_uint_iff)
qed

lemma uint_low32: "uint (ucast (ucast (t::64 word) :: 32 word) :: 64 word) = uint t mod 2 ^ 32"
proof -
  have "uint (ucast (ucast t :: 32 word) :: 64 word) = take_bit LENGTH(64) (uint (ucast t :: 32 word))"
    by (rule unsigned_ucast_eq)
  also have "uint (ucast t :: 32 word) = take_bit LENGTH(32) (uint t)"
    by (rule unsigned_ucast_eq)
  finally show ?thesis by (simp add: take_bit_eq_mod)
qed

lemma sint_low32:
  assumes "0 \<le> sint (t::64 word)"
  shows "sint (ucast (ucast t :: 32 word) :: 64 word) = sint t mod 2 ^ 32"
proof -
  let ?u = "ucast (ucast t :: 32 word) :: 64 word"
  have "uint ?u < 2 ^ 32" by (simp only: uint_low32) simp
  then have "uint ?u < 2 ^ 63" by simp
  have "sint ?u = signed_take_bit 63 (uint ?u)" by (simp add: sint_uint)
  also have "\<dots> = uint ?u"
  proof (rule signed_take_bit_int_eq_self)
    have "- (2 ^ 63) \<le> (0::int)" by simp
    then show "- (2 ^ 63) \<le> uint ?u" by (rule order_trans) (rule uint_ge_0)
    show "uint ?u < 2 ^ 63" by (rule \<open>uint ?u < 2 ^ 63\<close>)
  qed
  finally show ?thesis using sint_nonneg_uint [OF assms] by (simp only: uint_low32)
qed

lemma low32_eq_iff:
  assumes "0 \<le> sint (t::64 word)"
  shows "(ucast (ucast t :: 32 word) = t) = (sint t < 2 ^ 32)"
proof
  assume "ucast (ucast t :: 32 word) = t"
  then have "sint t = sint t mod 2 ^ 32" using sint_low32 [OF assms] by simp
  then show "sint t < 2 ^ 32"
    by (metis pos_mod_bound zero_less_numeral zero_less_power)
next
  assume "sint t < 2 ^ 32"
  then have "sint (ucast (ucast t :: 32 word) :: 64 word) = sint t"
    using assms sint_low32 [OF assms] by simp
  then show "ucast (ucast t :: 32 word) = t" by (rule signed_word_eqI)
qed

subsection \<open>\<^verbatim>\<open>DateTime\<close>: what \<^verbatim>\<open>Append\<close> writes and what is read back\<close>

lemma DateTime_Next_row:
  assumes "i r < totalByte r" and "size_col r = 4"
    and "slice (b r) (i r) (i r + 4) = Inr bs" and "LittleEndian_Uint32 bs = Inr u"
  shows "DateTime_Next r = Inr (r\<lparr>i := i r + 4, val := time_Unix (ucast u)\<rparr>, True)"
  using assms by (simp add: DateTime_Next_def Let_def)

lemma DateTime_ReadAll_one:
  assumes "b r = bs" and "length bs = 4" and "totalByte r = 4" and "size_col r = 4"
    and "LittleEndian_Uint32 bs = Inr u"
  shows "DateTime_ReadAll r out = Some (Inr (r, out @ [time_Unix (ucast u)]))"
proof -
  have tb: "totalByte r = length (b r)" using assms by simp
  have len: "length (b r) = 0 + 4 * 1" using assms by simp
  have "DateTime_ReadAll_loop r 0 out =
      Some (Inr (r, out @ map (\<lambda>bs. time_Unix (ucast (projr (LittleEndian_Uint32 bs))))
                                (rows 4 1 (drop 0 (b r)))))"
    using assms(4) tb len by (rule DateTime_ReadAll_loop_rows)
  then show ?thesis using assms by (simp add: DateTime_ReadAll_def)
qed

lemma LittleEndian_Uint32_zero: "LittleEndian_Uint32 [0, 0, 0, 0] = Inr 0"
  by (simp add: LittleEndian_Uint32_def)

lemma emptyByte_upto_4: "emptyByte_upto 4 = [0, 0, 0, 0]"
  by (simp add: emptyByte_upto_def numeral_eq_Suc)

lemma DateTime_Append_nonpositive:
  assumes "sint (Time_Unix v) \<le> 0" and "size_col c = DatetimeSize"
  shows "DateTime_Append c v =
           c\<lparr>numRow := numRow c + 1, writerData := writerData c @ [0, 0, 0, 0]\<rparr>"
  using assms by (simp add: DateTime_Append_def Let_def DatetimeSize_def emptyByte_upto_4)

lemma DateTime_Append_positive:
  assumes "0 < sint (Time_Unix v)"
  shows "DateTime_Append c v =
           c\<lparr>numRow := numRow c + 1,
             writerData := writerData c @
               [ucast (Time_Unix v), ucast (signed_drop_bit 8 (Time_Unix v)),
                ucast (signed_drop_bit 16 (Time_Unix v)),
                ucast (signed_drop_bit 24 (Time_Unix v))]\<rparr>"
  using assms by (simp add: DateTime_Append_def Let_def)

lemma nat_sint_mod:
  assumes "0 \<le> sint (t::64 word)"
  shows "nat (sint t mod 2 ^ 32) = unat t mod 2 ^ 32"
proof -
  have "sint t = int (unat t)" using sint_nonneg_uint [OF assms] by (simp only: uint_nat)
  moreover have "int (unat t) mod 2 ^ 32 = int (unat t mod 2 ^ 32)"
    by (simp only: zmod_int of_nat_power of_nat_numeral)
  ultimately show ?thesis by (simp only: nat_int)
qed

text \<open>
  Claim C3. On a \<^verbatim>\<open>DateTime\<close> column (element width \<^verbatim>\<open>DatetimeSize\<close>), \<^verbatim>\<open>Append\<close> of an
  instant whose epoch value is \<open>\<le> 0\<close> writes exactly four zero bytes. \<^verbatim>\<open>Next\<close> over a span
  of four zero bytes, and \<^verbatim>\<open>ReadAll\<close> over such a block, give \<^verbatim>\<open>time.Unix(0, 0)\<close>. So a
  column reading what such an \<^verbatim>\<open>Append\<close> wrote gets the epoch-0 instant, which for a
  negative epoch is not the instant appended.
\<close>

theorem DateTime_nonpositive_epoch:
  assumes "sint (Time_Unix v) \<le> 0" and "size_col c = DatetimeSize"
  shows "DateTime_Append c v =
           c\<lparr>numRow := numRow c + 1, writerData := writerData c @ [0, 0, 0, 0]\<rparr>
       \<and> (i r < totalByte r \<and> size_col r = DatetimeSize \<and>
            slice (b r) (i r) (i r + 4) = Inr [0, 0, 0, 0] \<longrightarrow>
            DateTime_Next r = Inr (r\<lparr>i := i r + 4, val := time_Unix 0\<rparr>, True))
       \<and> (b r = [0, 0, 0, 0] \<and> totalByte r = 4 \<and> size_col r = DatetimeSize \<longrightarrow>
            DateTime_ReadAll r out = Some (Inr (r, out @ [time_Unix 0])))
       \<and> (writerData c = [] \<and> b r = writerData (DateTime_Append c v) \<and> i r = 0 \<and>
            totalByte r = length (b r) \<and> size_col r = DatetimeSize \<longrightarrow>
            (\<exists>r'. DateTime_Next r = Inr (r', True) \<and> DateTime_Value r' = time_Unix 0 \<and>
                  sint (Time_Unix (DateTime_Value r')) = 0 \<and>
                  (sint (Time_Unix v) < 0 \<longrightarrow> DateTime_Value r' \<noteq> v)) \<and>
            DateTime_ReadAll r [] = Some (Inr (r, [time_Unix 0])))"
proof (intro conjI impI)
  show "DateTime_Append c v =
           c\<lparr>numRow := numRow c + 1, writerData := writerData c @ [0, 0, 0, 0]\<rparr>"
    using assms by (rule DateTime_Append_nonpositive)
next
  assume h: "i r < totalByte r \<and> size_col r = DatetimeSize \<and>
            slice (b r) (i r) (i r + 4) = Inr [0, 0, 0, 0]"
  then have "DateTime_Next r = Inr (r\<lparr>i := i r + 4, val := time_Unix (ucast (0::32 word))\<rparr>, True)"
    by (intro DateTime_Next_row [where bs = "[0, 0, 0, 0]"])
       (simp_all add: DatetimeSize_def LittleEndian_Uint32_zero)
  then show "DateTime_Next r = Inr (r\<lparr>i := i r + 4, val := time_Unix 0\<rparr>, True)" by simp
next
  assume h: "b r = [0, 0, 0, 0] \<and> totalByte r = 4 \<and> size_col r = DatetimeSize"
  then have "DateTime_ReadAll r out = Some (Inr (r, out @ [time_Unix (ucast (0::32 word))]))"
    by (intro DateTime_ReadAll_one [where bs = "[0, 0, 0, 0]"])
       (simp_all add: DatetimeSize_def LittleEndian_Uint32_zero)
  then show "DateTime_ReadAll r out = Some (Inr (r, out @ [time_Unix 0]))" by simp
next
  assume h: "writerData c = [] \<and> b r = writerData (DateTime_Append c v) \<and> i r = 0 \<and>
            totalByte r = length (b r) \<and> size_col r = DatetimeSize"
  have br: "b r = [0, 0, 0, 0]"
    using h by (simp add: DateTime_Append_nonpositive [OF assms])
  have i0: "i r = 0" and sz: "size_col r = 4" using h by (simp_all add: DatetimeSize_def)
  have tb: "totalByte r = 4" using h by (simp add: br)
  have lt: "i r < totalByte r" by (simp add: i0 tb)
  have sl: "slice (b r) (i r) (i r + 4) = Inr [0, 0, 0, 0]" by (simp add: br i0 slice_def)
  have nx: "DateTime_Next r = Inr (r\<lparr>i := i r + 4, val := time_Unix (ucast (0::32 word))\<rparr>, True)"
    using lt sz sl LittleEndian_Uint32_zero by (rule DateTime_Next_row)
  have ne: "sint (Time_Unix v) < 0 \<longrightarrow> time_Unix 0 \<noteq> v"
    by (auto simp: time_Unix_def)
  have l4: "length [0, 0, 0, 0 :: byte] = 4" by simp
  have ra: "DateTime_ReadAll r [] = Some (Inr (r, [] @ [time_Unix (ucast (0::32 word))]))"
    using br l4 tb sz LittleEndian_Uint32_zero by (rule DateTime_ReadAll_one)
  show "\<exists>r'. DateTime_Next r = Inr (r', True) \<and> DateTime_Value r' = time_Unix 0 \<and>
                  sint (Time_Unix (DateTime_Value r')) = 0 \<and>
                  (sint (Time_Unix v) < 0 \<longrightarrow> DateTime_Value r' \<noteq> v)"
    using nx ne by (simp add: DateTime_Value_def time_Unix_def)
  show "DateTime_ReadAll r [] = Some (Inr (r, [time_Unix 0]))"
    using ra by simp
qed

text \<open>
  Claim C9. \<^verbatim>\<open>DateTime.Append\<close> of an instant with a positive epoch value writes the four
  little-endian bytes of that value modulo \<open>2 ^ 32\<close>. A column reading them back gets an
  instant whose epoch is the original modulo \<open>2 ^ 32\<close>, which is the original epoch
  exactly when it is below \<open>2 ^ 32\<close>.
\<close>

theorem DateTime_low_32_bits:
  assumes "0 < sint (Time_Unix v)"
  shows "DateTime_Append c v =
           c\<lparr>numRow := numRow c + 1,
             writerData := writerData c @ le_bytes 4 (nat (sint (Time_Unix v) mod 2 ^ 32))\<rparr>
       \<and> (writerData c = [] \<and> b r = writerData (DateTime_Append c v) \<and> i r = 0 \<and>
            totalByte r = length (b r) \<and> size_col r = DatetimeSize \<longrightarrow>
            (\<exists>r'. DateTime_Next r = Inr (r', True) \<and>
                  sint (Time_Unix (DateTime_Value r')) = sint (Time_Unix v) mod 2 ^ 32 \<and>
                  ((Time_Unix (DateTime_Value r') = Time_Unix v) =
                     (sint (Time_Unix v) < 2 ^ 32))) \<and>
            (\<exists>t. DateTime_ReadAll r [] = Some (Inr (r, [t])) \<and>
                  sint (Time_Unix t) = sint (Time_Unix v) mod 2 ^ 32))"
proof (intro conjI impI)
  let ?t = "Time_Unix v"
  let ?bs = "[ucast ?t, ucast (signed_drop_bit 8 ?t), ucast (signed_drop_bit 16 ?t),
              ucast (signed_drop_bit 24 ?t)] :: byte list"
  have nn: "0 \<le> sint ?t" using assms by simp
  have bs: "?bs = le_bytes 4 (nat (sint ?t mod 2 ^ 32))"
    by (simp only: DateTime_bytes_le nat_sint_mod [OF nn] le_bytes4_mod)
  show ap: "DateTime_Append c v =
           c\<lparr>numRow := numRow c + 1,
             writerData := writerData c @ le_bytes 4 (nat (sint ?t mod 2 ^ 32))\<rparr>"
    by (simp only: DateTime_Append_positive [OF assms] bs)
  assume h: "writerData c = [] \<and> b r = writerData (DateTime_Append c v) \<and> i r = 0 \<and>
            totalByte r = length (b r) \<and> size_col r = DatetimeSize"
  have br: "b r = ?bs" using h by (simp add: DateTime_Append_positive [OF assms])
  have le: "LittleEndian_Uint32 ?bs = Inr (ucast ?t)" by (rule LittleEndian_Uint32_bytes)
  let ?d = "time_Unix (ucast (ucast ?t :: 32 word))"
  have i0: "i r = 0" and sz: "size_col r = 4" using h by (simp_all add: DatetimeSize_def)
  have l4: "length ?bs = 4" by simp
  have tb: "totalByte r = 4" using h by (simp add: br)
  have lt: "i r < totalByte r" by (simp add: i0 tb)
  have sl: "slice (b r) (i r) (i r + 4) = Inr ?bs" by (simp add: br i0 slice_def)
  have nx: "DateTime_Next r = Inr (r\<lparr>i := i r + 4, val := ?d\<rparr>, True)"
    using lt sz sl le by (rule DateTime_Next_row)
  have ra: "DateTime_ReadAll r [] = Some (Inr (r, [] @ [?d]))"
    using br l4 tb sz le by (rule DateTime_ReadAll_one)
  have s: "sint (Time_Unix ?d) = sint ?t mod 2 ^ 32"
    by (simp add: time_Unix_def sint_low32 [OF nn])
  have e: "(Time_Unix ?d = ?t) = (sint ?t < 2 ^ 32)"
    by (simp add: time_Unix_def low32_eq_iff [OF nn])
  show "\<exists>r'. DateTime_Next r = Inr (r', True) \<and>
                  sint (Time_Unix (DateTime_Value r')) = sint ?t mod 2 ^ 32 \<and>
                  ((Time_Unix (DateTime_Value r') = ?t) = (sint ?t < 2 ^ 32))"
    using nx s e by (simp add: DateTime_Value_def)
  show "\<exists>t. DateTime_ReadAll r [] = Some (Inr (r, [t])) \<and>
                  sint (Time_Unix t) = sint ?t mod 2 ^ 32"
    using ra s by simp
qed

theorem DateTime_nonpositive_epoch_witness:
  "sint (Time_Unix (MkTime (- 5) 7)) \<le> 0
   \<and> writerData (DateTime_Append (NewDateTime False) (MkTime (- 5) 7)) = [0, 0, 0, 0]
   \<and> DateTime_Next ((NewDateTime False)\<lparr>b := [0, 0, 0, 0], totalByte := 4\<rparr>) =
       Inr ((NewDateTime False)\<lparr>b := [0, 0, 0, 0], totalByte := 4, i := 4, val := time_Unix 0\<rparr>, True)
   \<and> DateTime_ReadAll ((NewDateTime False)\<lparr>b := [0, 0, 0, 0], totalByte := 4\<rparr>) [] =
       Some (Inr ((NewDateTime False)\<lparr>b := [0, 0, 0, 0], totalByte := 4\<rparr>, [time_Unix 0]))
   \<and> (\<exists>r'. DateTime_Next ((NewDateTime False)\<lparr>b := [0, 0, 0, 0], totalByte := 4\<rparr>) = Inr (r', True)
         \<and> DateTime_Value r' \<noteq> MkTime (- 5) 7)"
proof -
  let ?v = "MkTime (- 5) 7"
  let ?c = "NewDateTime False"
  let ?r = "(NewDateTime False)\<lparr>b := [0, 0, 0, 0], totalByte := 4\<rparr>"
  have h1: "sint (Time_Unix ?v) \<le> 0" by simp
  have neg: "sint (Time_Unix ?v) < 0" by simp
  have h2: "size_col ?c = DatetimeSize" by (simp add: NewDateTime_def)
  note R = DateTime_nonpositive_epoch [OF h1 h2, of ?r "[]"]
  have ap: "DateTime_Append ?c ?v =
      ?c\<lparr>numRow := numRow ?c + 1, writerData := writerData ?c @ [0, 0, 0, 0]\<rparr>"
    using R by (rule conjunct1)
  have wd: "writerData (DateTime_Append ?c ?v) = [0, 0, 0, 0]"
    by (simp only: ap) (simp add: NewDateTime_def)
  have a2: "i ?r < totalByte ?r \<and> size_col ?r = DatetimeSize \<and>
            slice (b ?r) (i ?r) (i ?r + 4) = Inr [0, 0, 0, 0]"
    by (simp add: NewDateTime_def slice_def)
  have a3: "b ?r = [0, 0, 0, 0] \<and> totalByte ?r = 4 \<and> size_col ?r = DatetimeSize"
    by (simp add: NewDateTime_def)
  have a4: "writerData ?c = [] \<and> b ?r = writerData (DateTime_Append ?c ?v) \<and> i ?r = 0 \<and>
            totalByte ?r = length (b ?r) \<and> size_col ?r = DatetimeSize"
    by (simp only: wd) (simp add: NewDateTime_def)
  have n: "DateTime_Next ?r = Inr (?r\<lparr>i := i ?r + 4, val := time_Unix 0\<rparr>, True)"
    using R a2 by blast
  have ra: "DateTime_ReadAll ?r [] = Some (Inr (?r, [] @ [time_Unix 0]))"
    using R a3 by blast
  have rt: "\<exists>r'. DateTime_Next ?r = Inr (r', True) \<and> DateTime_Value r' \<noteq> ?v"
    using R a4 neg by blast
  have n': "DateTime_Next ?r = Inr (?r\<lparr>i := 4, val := time_Unix 0\<rparr>, True)"
    using n by (simp add: NewDateTime_def)
  show ?thesis using h1 wd n' ra rt by simp
qed

theorem DateTime_low_32_bits_witness:
  "0 < sint (Time_Unix (MkTime 4294967301 0))
   \<and> writerData (DateTime_Append (NewDateTime False) (MkTime 4294967301 0)) = [5, 0, 0, 0]
   \<and> (\<exists>r'. DateTime_Next ((NewDateTime False)\<lparr>b := [5, 0, 0, 0], totalByte := 4\<rparr>) = Inr (r', True)
         \<and> sint (Time_Unix (DateTime_Value r')) = 5
         \<and> Time_Unix (DateTime_Value r') \<noteq> 4294967301)"
proof -
  let ?v = "MkTime 4294967301 0"
  let ?c = "NewDateTime False"
  let ?r = "(NewDateTime False)\<lparr>b := [5, 0, 0, 0], totalByte := 4\<rparr>"
  have h1: "0 < sint (Time_Unix ?v)" by simp
  have m: "sint (Time_Unix ?v) mod 2 ^ 32 = 5" by simp
  have big: "\<not> sint (Time_Unix ?v) < 2 ^ 32" by simp
  note R = DateTime_low_32_bits [OF h1, of ?c ?r]
  have ap: "DateTime_Append ?c ?v =
      ?c\<lparr>numRow := numRow ?c + 1,
         writerData := writerData ?c @ le_bytes 4 (nat (sint (Time_Unix ?v) mod 2 ^ 32))\<rparr>"
    using R by (rule conjunct1)
  have lb: "le_bytes 4 (nat 5) = [5, 0, 0, 0]" by (simp add: le_bytes_def upt4)
  have wd: "writerData (DateTime_Append ?c ?v) = [5, 0, 0, 0]"
    by (simp only: ap m lb) (simp add: NewDateTime_def)
  have a: "writerData ?c = [] \<and> b ?r = writerData (DateTime_Append ?c ?v) \<and> i ?r = 0 \<and>
            totalByte ?r = length (b ?r) \<and> size_col ?r = DatetimeSize"
    by (simp only: wd) (simp add: NewDateTime_def)
  have "\<exists>r'. DateTime_Next ?r = Inr (r', True) \<and>
                  sint (Time_Unix (DateTime_Value r')) = sint (Time_Unix ?v) mod 2 ^ 32 \<and>
                  ((Time_Unix (DateTime_Value r') = Time_Unix ?v) =
                     (sint (Time_Unix ?v) < 2 ^ 32))"
    using R a by blast
  then have "\<exists>r'. DateTime_Next ?r = Inr (r', True) \<and>
                  sint (Time_Unix (DateTime_Value r')) = 5 \<and>
                  Time_Unix (DateTime_Value r') \<noteq> Time_Unix ?v"
    unfolding m using big by blast
  then show ?thesis using h1 wd by simp
qed

end
